theory Spec2Isabelle
  imports Main "HOL-Library.Multiset" "HOL-Library.Sublist"
begin

section \<open>The query and save engine of odmantic (\<^verbatim>\<open>odmantic/engine.py\<close>)\<close>

subsection \<open>Model classes and their reference metadata\<close>

text \<open>
  A model class carries \<^verbatim>\<open>__collection__\<close>, \<^verbatim>\<open>__primary_key__\<close>, the list
  \<^verbatim>\<open>__references__\<close> of the names of its reference fields (in declaration order) and
  the dictionary \<^verbatim>\<open>__odm_fields__\<close> from field names to field descriptors. A descriptor
  of a reference (\<^verbatim>\<open>ODMReference\<close>) holds the referenced model class and the key name
  under which the foreign identifier is stored. A class statement can only name classes
  that exist already, so the classes reachable from a model form a finite tree.
\<close>

datatype 'm odm_field =
    ODMField (key_name: string)
  | ODMReference (model: 'm) (key_name: string)

datatype model =
  Model (collection: string) (primary_key: string) (references: "string list")
        (odm_fields: "(string \<times> model odm_field) list")

subsection \<open>Instances\<close>

datatype bson = BNull | BInt int | BStr string | BObjectId nat

datatype 'i attr = Plain bson | Sub 'i

text \<open>
  An instance knows its class (\<^verbatim>\<open>type(instance)\<close>), its attribute values (a reference
  field holds the referenced instance) and the set \<^verbatim>\<open>__fields_modified__\<close>.
\<close>

datatype model_instance =
  Instance (cls: model) (attr_dict: "(string \<times> model_instance attr) list") (fields_modified: "string set")

definition set_fields_modified :: "model_instance \<Rightarrow> string set \<Rightarrow> model_instance" where
  "set_fields_modified inst s = Instance (cls inst) (attr_dict inst) s"

subsection \<open>Errors\<close>

text \<open>
  The exceptions the engine raises or lets through. \<^verbatim>\<open>PyMongoDuplicateKeyError\<close> carries
  the keys of \<^verbatim>\<open>e.details["keyPattern"]\<close>, or \<open>None\<close> when the details have no such
  entry; \<^verbatim>\<open>StoreError\<close> stands for every other error of the driver.
\<close>

datatype py_error =
    TypeError string
  | KeyError string
  | AttributeError string
  | IndexError
  | ParseError string
  | StoreError string
  | PyMongoDuplicateKeyError "string list option"
  | DuplicatePrimaryKeyError model_instance

type_synonym 'a result = "py_error + 'a"

subsection \<open>Aggregation pipelines\<close>

text \<open>
  \<open>Filter q\<close> is a caller's query; \<open>ExprEq a b\<close> is the document
  \<^verbatim>\<open>{"$expr": {"$eq": [a, b]}}\<close>. A lookup stage has the keys \<^verbatim>\<open>from\<close>,
  \<^verbatim>\<open>let\<close> (with the one binding \<^verbatim>\<open>foreign_id\<close>), \<^verbatim>\<open>pipeline\<close> and \<^verbatim>\<open>as\<close>.
\<close>

datatype 'q match_doc = Filter 'q | ExprEq string string

datatype 'q stage =
    Match "'q match_doc"
  | Limit int
  | Skip int
  | Lookup (lookup_from: string) (let_foreign_id: string)
           (lookup_pipeline: "'q stage list") (lookup_as: string)
  | Unwind string

subsection \<open>\<^verbatim>\<open>AIOEngine._cascade_find_pipeline\<close>\<close>

text \<open>
  The loop \<^verbatim>\<open>for ref_field_name in model.__references__\<close>: the body computes the
  stages it appends to \<^verbatim>\<open>pipeline\<close>, or raises.
\<close>

fun for_references ::
  "(string \<Rightarrow> 'q stage list result) \<Rightarrow> string list \<Rightarrow> 'q stage list \<Rightarrow> 'q stage list result"
where
  "for_references body [] pipeline = Inr pipeline"
| "for_references body (ref_field_name # rest) pipeline =
     (case body ref_field_name of
        Inl e \<Rightarrow> Inl e
      | Inr stages \<Rightarrow> for_references body rest (pipeline @ stages))"

lemma for_references_cong [fundef_cong]:
  "xs = ys \<Longrightarrow> p = q \<Longrightarrow> (\<And>x. x \<in> set ys \<Longrightarrow> f x = g x) \<Longrightarrow>
   for_references f xs p = for_references g ys q"
  by (induction ys arbitrary: xs p q) (auto split: sum.splits)

lemma size_odm_fields_entry:
  "map_of fs r = Some (ODMReference rm k) \<Longrightarrow>
   size rm < Suc (size_list (size_prod (\<lambda>_. 0) (size_odm_field size)) fs)"
proof (induction fs)
  case Nil
  then show ?case by simp
next
  case (Cons f fs)
  then show ?case by (cases f) (auto split: if_splits)
qed

lemma size_referenced_model [termination_simp]:
  "map_of (odm_fields m) r = Some (ODMReference rm k) \<Longrightarrow> size rm < size m"
  using size_odm_fields_entry [of "odm_fields m" r rm k] by (cases m) simp

function cascade_find_pipeline :: "model \<Rightarrow> string \<Rightarrow> 'q stage list result" where
  "cascade_find_pipeline m doc_namespace =
     for_references
       (\<lambda>ref_field_name.
          case map_of (odm_fields m) ref_field_name of
            None \<Rightarrow> Inl (KeyError ref_field_name)
          | Some (ODMField _) \<Rightarrow> Inl (AttributeError ''model'')
          | Some (ODMReference rm k) \<Rightarrow>
              (case cascade_find_pipeline rm (doc_namespace @ ref_field_name @ ''.'') of
                 Inl e \<Rightarrow> Inl e
               | Inr sub \<Rightarrow>
                   Inr [Lookup (collection rm) (''$'' @ k)
                          (Match (ExprEq ''$_id'' ''$$foreign_id'') # sub) ref_field_name,
                        Unwind (''$'' @ ref_field_name)]))
       (references m) []"
  by pat_completeness auto
termination
  by (relation "measure (\<lambda>(m, ns). size m)") (auto simp: size_referenced_model)

declare cascade_find_pipeline.simps [simp del]

subsection \<open>Well-formed reference metadata and nesting depth\<close>

text \<open>
  The metaclass of \<^verbatim>\<open>odmantic/model.py\<close> fills \<^verbatim>\<open>__references__\<close> with names that are
  keys of \<^verbatim>\<open>__odm_fields__\<close> and map to an \<^verbatim>\<open>ODMReference\<close>; \<open>wf_model\<close> says so for
  a model and every model it references.
\<close>

fun wf_model :: "model \<Rightarrow> bool" where
  "wf_model m =
     (\<forall>r \<in> set (references m).
        case map_of (odm_fields m) r of
          Some (ODMReference rm k) \<Rightarrow> wf_model rm
        | _ \<Rightarrow> False)"

declare wf_model.simps [simp del]

text \<open>The number of levels of nested references below a model.\<close>

fun levels :: "model \<Rightarrow> nat" where
  "levels m =
     foldr max
       (map (\<lambda>r. case map_of (odm_fields m) r of
                    Some (ODMReference rm k) \<Rightarrow> Suc (levels rm)
                  | _ \<Rightarrow> 0)
            (references m)) 0"

declare levels.simps [simp del]

text \<open>The number of levels of nested lookup stages in a pipeline.\<close>

fun stage_levels :: "'q stage \<Rightarrow> nat" and lookup_levels :: "'q stage list \<Rightarrow> nat" where
  "stage_levels (Lookup f l p a) = Suc (lookup_levels p)"
| "stage_levels (Match q) = 0"
| "stage_levels (Limit n) = 0"
| "stage_levels (Skip n) = 0"
| "stage_levels (Unwind u) = 0"
| "lookup_levels [] = 0"
| "lookup_levels (s # ss) = max (stage_levels s) (lookup_levels ss)"

text \<open>
  The pair of stages the specification asks for one reference field: a lookup into the
  referenced collection, whose sub-pipeline is the identifier match followed by the
  referenced model's own cascade stages and whose output goes under the field name,
  then the unwind of that field.
\<close>

definition ref_stages :: "model \<Rightarrow> string \<Rightarrow> 'q stage list" where
  "ref_stages m r =
     (case map_of (odm_fields m) r of
        Some (ODMReference rm k) \<Rightarrow>
          [Lookup (collection rm) (''$'' @ k)
             (Match (ExprEq ''$_id'' ''$$foreign_id'') # projr (cascade_find_pipeline rm [])) r,
           Unwind (''$'' @ r)]
      | _ \<Rightarrow> [])"

subsection \<open>\<^verbatim>\<open>AIOCursor\<close> and the driver's cursor\<close>

text \<open>
  The driver's cursor is a single-pass stream of raw documents: \<open>pending\<close> are the
  documents not read yet, \<open>fetched\<close> counts the documents read from it so far.
  An \<^verbatim>\<open>AIOCursor\<close> holds \<^verbatim>\<open>_model\<close>, \<^verbatim>\<open>_motor_cursor\<close> and \<^verbatim>\<open>_results\<close>.
\<close>

record 'raw motor_cursor =
  pending :: "'raw list"
  fetched :: nat

record 'raw aio_cursor =
  cursor_model :: model
  motor_cursor :: "'raw motor_cursor"
  results :: "model_instance list option"

subsection \<open>\<^verbatim>\<open>AIOEngine.find\<close>\<close>

text \<open>What a caller may pass as \<^verbatim>\<open>model\<close>: a subclass of \<^verbatim>\<open>Model\<close> or anything else.\<close>

datatype py_type = ModelType model | OtherType

text \<open>Lines 115 to 120 of \<^verbatim>\<open>find\<close>: the pipeline handed to \<^verbatim>\<open>collection.aggregate\<close>.\<close>

definition find_pipeline :: "model \<Rightarrow> 'q \<Rightarrow> int \<Rightarrow> int \<Rightarrow> 'q stage list result" where
  "find_pipeline m query limit skip =
     (let pipeline = [Match (Filter query)];
          pipeline = (if limit > 0 then pipeline @ [Limit limit] else pipeline);
          pipeline = (if skip > 0 then pipeline @ [Skip skip] else pipeline)
      in case cascade_find_pipeline m [] of
           Inl e \<Rightarrow> Inl e
         | Inr stages \<Rightarrow> Inr (pipeline @ stages))"

text \<open>
  \<open>aggregate\<close> is the store: the raw documents the driver's cursor will deliver for a
  pipeline on a collection.
\<close>

definition find ::
  "(string \<Rightarrow> 'q stage list \<Rightarrow> 'raw list) \<Rightarrow> py_type \<Rightarrow> 'q \<Rightarrow> int \<Rightarrow> int \<Rightarrow> 'raw aio_cursor result"
where
  "find aggregate model_arg query limit skip =
     (case model_arg of
        OtherType \<Rightarrow> Inl (TypeError ''Can only call find with a Model class'')
      | ModelType m \<Rightarrow>
          (case find_pipeline m query limit skip of
             Inl e \<Rightarrow> Inl e
           | Inr pipeline \<Rightarrow>
               Inr \<lparr>cursor_model = m,
                    motor_cursor = \<lparr>pending = aggregate (collection m) pipeline, fetched = 0\<rparr>,
                    results = None\<rparr>))"

subsection \<open>Example models\<close>

definition author_model :: model where
  "author_model =
     Model ''author'' ''id'' [] [(''id'', ODMField ''_id''), (''name'', ODMField ''name'')]"

definition publisher_model :: model where
  "publisher_model =
     Model ''publisher'' ''id'' [] [(''id'', ODMField ''_id''), (''name'', ODMField ''name'')]"

definition book_model :: model where
  "book_model = Model ''book'' ''id'' [''author'', ''publisher'']
     [(''id'', ODMField ''_id''), (''title'', ODMField ''title''),
      (''author'', ODMReference author_model ''author''),
      (''publisher'', ODMReference publisher_model ''publisher_id'')]"

definition loan_model :: model where
  "loan_model = Model ''loan'' ''id'' [''book'']
     [(''id'', ODMField ''_id''), (''book'', ODMReference book_model ''book'')]"

subsection \<open>The driver's cursor\<close>

text \<open>
  \<^verbatim>\<open>to_list(length=None)\<close> delivers every document not read yet; one step of
  \<^verbatim>\<open>async for raw_doc in self._motor_cursor\<close> delivers the next one, if any.
\<close>

definition to_list :: "'raw motor_cursor \<Rightarrow> 'raw list \<times> 'raw motor_cursor" where
  "to_list mc = (pending mc, \<lparr>pending = [], fetched = fetched mc + length (pending mc)\<rparr>)"

definition next_raw :: "'raw motor_cursor \<Rightarrow> 'raw option \<times> 'raw motor_cursor" where
  "next_raw mc =
     (case pending mc of
        [] \<Rightarrow> (None, mc)
      | raw_doc # rest \<Rightarrow> (Some raw_doc, \<lparr>pending = rest, fetched = fetched mc + 1\<rparr>))"

subsection \<open>\<^verbatim>\<open>AIOCursor._parse_document\<close> and \<^verbatim>\<open>AIOCursor.__await__\<close>\<close>

text \<open>
  \<open>parse_doc\<close> is the class method \<^verbatim>\<open>parse_doc\<close> of the model, which builds an
  instance from a raw document or raises.
\<close>

type_synonym 'raw parser = "model \<Rightarrow> 'raw \<Rightarrow> model_instance result"

definition parse_document ::
  "'raw parser \<Rightarrow> 'raw aio_cursor \<Rightarrow> 'raw \<Rightarrow> model_instance result" where
  "parse_document parse_doc self raw_doc =
     (case parse_doc (cursor_model self) raw_doc of
        Inl e \<Rightarrow> Inl e
      | Inr inst \<Rightarrow> Inr (set_fields_modified inst {}))"

text \<open>The loop \<^verbatim>\<open>for raw_doc in raw_docs\<close> of \<^verbatim>\<open>__await__\<close>.\<close>

fun parse_all ::
  "'raw parser \<Rightarrow> 'raw aio_cursor \<Rightarrow> 'raw list \<Rightarrow> model_instance list \<Rightarrow> model_instance list result"
where
  "parse_all parse_doc self [] instances = Inr instances"
| "parse_all parse_doc self (raw_doc # rest) instances =
     (case parse_document parse_doc self raw_doc of
        Inl e \<Rightarrow> Inl e
      | Inr inst \<Rightarrow> parse_all parse_doc self rest (instances @ [inst]))"

text \<open>\<^verbatim>\<open>await cursor\<close>: the value or the exception, and the cursor afterwards.\<close>

definition cursor_await ::
  "'raw parser \<Rightarrow> 'raw aio_cursor \<Rightarrow> model_instance list result \<times> 'raw aio_cursor" where
  "cursor_await parse_doc self =
     (case results self of
        Some cached \<Rightarrow> (Inr cached, self)
      | None \<Rightarrow>
          (let (raw_docs, mc) = to_list (motor_cursor self);
               self = self\<lparr>motor_cursor := mc\<rparr>
           in case parse_all parse_doc self raw_docs [] of
                Inl e \<Rightarrow> (Inl e, self)
              | Inr instances \<Rightarrow> (Inr instances, self\<lparr>results := Some instances\<rparr>)))"

subsection \<open>\<^verbatim>\<open>AIOCursor.__aiter__\<close>\<close>

text \<open>
  \<^verbatim>\<open>__aiter__\<close> is an asynchronous generator: calling it runs nothing, and each
  \<^verbatim>\<open>__anext__\<close> runs the body up to the next \<^verbatim>\<open>yield\<close>. The generator is either not
  started, inside the loop over the cached results (with the results still to yield),
  inside the loop over the driver's cursor (with the local list \<^verbatim>\<open>results\<close>), or
  finished.
\<close>

datatype aiter_state =
    Created
  | Replaying "model_instance list"
  | Streaming "model_instance list"
  | Finished

datatype yielded = Yield model_instance | StopAsyncIteration | Raise py_error

definition replay_step ::
  "model_instance list \<Rightarrow> 'raw aio_cursor \<Rightarrow> yielded \<times> aiter_state \<times> 'raw aio_cursor" where
  "replay_step rest self =
     (case rest of
        [] \<Rightarrow> (StopAsyncIteration, Finished, self)
      | res # rest' \<Rightarrow> (Yield res, Replaying rest', self))"

definition stream_step ::
  "'raw parser \<Rightarrow> model_instance list \<Rightarrow> 'raw aio_cursor
     \<Rightarrow> yielded \<times> aiter_state \<times> 'raw aio_cursor" where
  "stream_step parse_doc results_local self =
     (case next_raw (motor_cursor self) of
        (None, mc) \<Rightarrow>
          (StopAsyncIteration, Finished, self\<lparr>motor_cursor := mc, results := Some results_local\<rparr>)
      | (Some raw_doc, mc) \<Rightarrow>
          (let self = self\<lparr>motor_cursor := mc\<rparr>
           in case parse_document parse_doc self raw_doc of
                Inl e \<Rightarrow> (Raise e, Finished, self)
              | Inr inst \<Rightarrow> (Yield inst, Streaming (results_local @ [inst]), self)))"

fun anext ::
  "'raw parser \<Rightarrow> aiter_state \<Rightarrow> 'raw aio_cursor \<Rightarrow> yielded \<times> aiter_state \<times> 'raw aio_cursor"
where
  "anext parse_doc Created self =
     (case results self of
        Some cached \<Rightarrow> replay_step cached self
      | None \<Rightarrow> stream_step parse_doc [] self)"
| "anext parse_doc (Replaying rest) self = replay_step rest self"
| "anext parse_doc (Streaming results_local) self = stream_step parse_doc results_local self"
| "anext parse_doc Finished self = (StopAsyncIteration, Finished, self)"

text \<open>What a generator in a given state can still yield at most.\<close>

fun remaining :: "aiter_state \<Rightarrow> 'raw aio_cursor \<Rightarrow> nat" where
  "remaining Created self =
     (case results self of
        Some cached \<Rightarrow> length cached
      | None \<Rightarrow> length (pending (motor_cursor self)))"
| "remaining (Replaying rest) self = length rest"
| "remaining (Streaming results_local) self = length (pending (motor_cursor self))"
| "remaining Finished self = 0"

lemma anext_Yield_remaining:
  "anext parse_doc g self = (Yield inst, g', self') \<Longrightarrow> remaining g' self' < remaining g self"
  by (cases g)
     (auto simp: replay_step_def stream_step_def next_raw_def Let_def
           split: option.splits list.splits sum.splits)

text \<open>
  \<^verbatim>\<open>[x async for x in cursor]\<close> on a generator in state \<open>g\<close>: the instances collected
  (after those of \<open>out\<close>) or the exception, and the cursor afterwards.
\<close>

function iterate ::
  "'raw parser \<Rightarrow> aiter_state \<Rightarrow> 'raw aio_cursor \<Rightarrow> model_instance list
     \<Rightarrow> model_instance list result \<times> 'raw aio_cursor"
where
  "iterate parse_doc g self out =
     (case anext parse_doc g self of
        (Yield inst, g', self') \<Rightarrow> iterate parse_doc g' self' (out @ [inst])
      | (StopAsyncIteration, g', self') \<Rightarrow> (Inr out, self')
      | (Raise e, g', self') \<Rightarrow> (Inl e, self'))"
  by pat_completeness auto
termination
  by (relation "measure (\<lambda>(parse_doc, g, self, out). remaining g self)")
     (auto dest: anext_Yield_remaining [OF sym])

declare iterate.simps [simp del]

definition cursor_aiter ::
  "'raw parser \<Rightarrow> 'raw aio_cursor \<Rightarrow> model_instance list result \<times> 'raw aio_cursor" where
  "cursor_aiter parse_doc self = iterate parse_doc Created self []"

text \<open>
  An iteration that is abandoned: at most \<open>n\<close> calls of \<^verbatim>\<open>__anext__\<close>, then the
  generator is dropped. The result holds the instances yielded, the state the generator
  was left in, and the cursor.
\<close>

fun anext_n ::
  "'raw parser \<Rightarrow> nat \<Rightarrow> aiter_state \<Rightarrow> 'raw aio_cursor
     \<Rightarrow> model_instance list \<times> aiter_state \<times> 'raw aio_cursor"
where
  "anext_n parse_doc 0 g self = ([], g, self)"
| "anext_n parse_doc (Suc n) g self =
     (case anext parse_doc g self of
        (Yield inst, g', self') \<Rightarrow>
          (case anext_n parse_doc n g' self' of
             (insts, g'', self'') \<Rightarrow> (inst # insts, g'', self''))
      | (_, g', self') \<Rightarrow> ([], g', self'))"

subsection \<open>\<^verbatim>\<open>AIOEngine.find_one\<close>\<close>

definition find_one ::
  "(string \<Rightarrow> 'q stage list \<Rightarrow> 'raw list) \<Rightarrow> 'raw parser \<Rightarrow> py_type \<Rightarrow> 'q
     \<Rightarrow> model_instance option result"
where
  "find_one aggregate parse_doc model_arg query =
     (case model_arg of
        OtherType \<Rightarrow> Inl (TypeError ''Can only call find_one with a Model class'')
      | ModelType m \<Rightarrow>
          (case find aggregate model_arg query 1 0 of
             Inl e \<Rightarrow> Inl e
           | Inr cursor \<Rightarrow>
               (case fst (cursor_await parse_doc cursor) of
                  Inl e \<Rightarrow> Inl e
                | Inr found \<Rightarrow>
                    if length found = 0 then Inr None else Inr (Some (found ! 0)))))"

text \<open>
  The specification's words for \<^verbatim>\<open>find_one\<close>: materialize \<^verbatim>\<open>find\<close> with the limit 1;
  the first instance if there is one, the absence marker otherwise.
\<close>

definition find_one_spec ::
  "(string \<Rightarrow> 'q stage list \<Rightarrow> 'raw list) \<Rightarrow> 'raw parser \<Rightarrow> model \<Rightarrow> 'q
     \<Rightarrow> model_instance option result"
where
  "find_one_spec aggregate parse_doc m query =
     (case find aggregate (ModelType m) query 1 0 of
        Inl e \<Rightarrow> Inl e
      | Inr cursor \<Rightarrow>
          (case fst (cursor_await parse_doc cursor) of
             Inl e \<Rightarrow> Inl e
           | Inr [] \<Rightarrow> Inr None
           | Inr (first # others) \<Rightarrow> Inr (Some first)))"


subsection \<open>The store's collections, sessions and transactions\<close>

text \<open>
  One call of \<^verbatim>\<open>collection.update_one\<close>: the collection, the value of the filter
  \<^verbatim>\<open>{"_id": ...}\<close>, the document of \<^verbatim>\<open>{"$set": ...}\<close>, the flag \<^verbatim>\<open>upsert\<close> and the
  keyword \<^verbatim>\<open>session\<close> (\<open>None\<close> when the call does not pass it).
\<close>

datatype session = Session

record 'doc update =
  update_collection :: string
  filter_id :: "model_instance attr"
  set_doc :: 'doc
  upsert :: bool
  with_session :: "session option"

text \<open>
  The store keeps the updates that are persisted (observable by every reader) and the
  updates buffered by the open transaction. An update made with the session of the
  transaction is buffered until the transaction commits, and dropped when it aborts; an
  update made without a session is persisted at once, whatever transaction is open.
\<close>

record 'doc database =
  persisted :: "'doc update list"
  in_transaction :: "'doc update list"

definition start_transaction :: "'doc database \<Rightarrow> 'doc database" where
  "start_transaction db = db\<lparr>in_transaction := []\<rparr>"

definition commit_transaction :: "'doc database \<Rightarrow> 'doc database" where
  "commit_transaction db = db\<lparr>persisted := persisted db @ in_transaction db, in_transaction := []\<rparr>"

definition abort_transaction :: "'doc database \<Rightarrow> 'doc database" where
  "abort_transaction db = db\<lparr>in_transaction := []\<rparr>"

text \<open>
  \<open>reject\<close> is the store's decision to fail an update in a given state, with the
  exception it raises.
\<close>

type_synonym 'doc rejecter = "'doc database \<Rightarrow> 'doc update \<Rightarrow> py_error option"

definition update_one ::
  "'doc rejecter \<Rightarrow> 'doc database \<Rightarrow> 'doc update \<Rightarrow> unit result \<times> 'doc database" where
  "update_one reject db upd =
     (case reject db upd of
        Some e \<Rightarrow> (Inl e, db)
      | None \<Rightarrow>
          (case with_session upd of
             None \<Rightarrow> (Inr (), db\<lparr>persisted := persisted db @ [upd]\<rparr>)
           | Some s \<Rightarrow> (Inr (), db\<lparr>in_transaction := in_transaction db @ [upd]\<rparr>)))"

subsection \<open>\<^verbatim>\<open>AIOEngine._save\<close>\<close>

definition getattr :: "model_instance \<Rightarrow> string \<Rightarrow> model_instance attr result" where
  "getattr inst name =
     (case map_of (attr_dict inst) name of
        None \<Rightarrow> Inl (AttributeError name)
      | Some v \<Rightarrow> Inr v)"

text \<open>
  The loop \<^verbatim>\<open>for ref_field_name in instance.__references__\<close>: it reads the attribute of
  every reference field and makes one task of each value; no task runs before the loop
  is over.
\<close>

fun save_tasks :: "model_instance \<Rightarrow> string list \<Rightarrow> model_instance attr list result" where
  "save_tasks inst [] = Inr []"
| "save_tasks inst (ref_field_name # rest) =
     (case getattr inst ref_field_name of
        Inl e \<Rightarrow> Inl e
      | Inr sub_instance \<Rightarrow>
          (case save_tasks inst rest of
             Inl e \<Rightarrow> Inl e
           | Inr tasks \<Rightarrow> Inr (sub_instance # tasks)))"

text \<open>
  One schedule of \<^verbatim>\<open>await gather(*save_tasks)\<close>: the tasks complete one after the other
  in the order of the list. When a task raises, \<^verbatim>\<open>gather\<close> raises at once; the tasks after
  it are not cancelled, but in this schedule they have not written yet.
\<close>

fun gather :: "('a \<Rightarrow> 's \<Rightarrow> unit result \<times> 's) \<Rightarrow> 'a list \<Rightarrow> 's \<Rightarrow> unit result \<times> 's" where
  "gather task [] db = (Inr (), db)"
| "gather task (x # xs) db =
     (case task x db of
        (Inl e, db') \<Rightarrow> (Inl e, db')
      | (Inr u, db') \<Rightarrow> gather task xs db')"

lemma gather_cong [fundef_cong]:
  "xs = ys \<Longrightarrow> db = db' \<Longrightarrow> (\<And>x s. x \<in> set ys \<Longrightarrow> f x s = g x s) \<Longrightarrow>
   gather f xs db = gather g ys db'"
  by (induction ys arbitrary: xs db db') (auto split: prod.splits sum.splits)

text \<open>
  Lines 144 to 154: the update the instance makes for itself, if any. The document is
  computed by \<^verbatim>\<open>instance.doc\<close>, here \<open>doc\<close>, from the instance and the set of fields to
  include; the call of \<^verbatim>\<open>update_one\<close> passes no session.
\<close>

definition own_update ::
  "(model_instance \<Rightarrow> string set \<Rightarrow> 'doc) \<Rightarrow> model_instance \<Rightarrow> 'doc update option result" where
  "own_update doc inst =
     (if fields_modified inst \<noteq> {} then
        (let d = doc inst (fields_modified inst - {primary_key (cls inst)})
         in case getattr inst ''id'' of
              Inl e \<Rightarrow> Inl e
            | Inr v \<Rightarrow>
                Inr (Some \<lparr>update_collection = collection (cls inst), filter_id = v,
                           set_doc = d, upsert = True, with_session = None\<rparr>))
      else Inr None)"

lemma size_attr_dict_entry:
  "map_of attrs r = Some (Sub sub) \<Longrightarrow>
   size sub < Suc (size_list (size_prod (\<lambda>_. 0) (size_attr size)) attrs)"
proof (induction attrs)
  case Nil
  then show ?case by simp
next
  case (Cons a attrs)
  then show ?case by (cases a) (auto split: if_splits)
qed

lemma size_sub_instance:
  "map_of (attr_dict inst) r = Some (Sub sub) \<Longrightarrow> size sub < size inst"
  using size_attr_dict_entry [of "attr_dict inst" r sub] by (cases inst) simp

lemma size_save_tasks [termination_simp]:
  "save_tasks inst refs = Inr tasks \<Longrightarrow> Sub sub \<in> set tasks \<Longrightarrow> size sub < size inst"
proof (induction refs arbitrary: tasks)
  case Nil
  then show ?case by simp
next
  case (Cons r refs)
  then show ?case
    by (auto simp: getattr_def size_sub_instance split: sum.splits option.splits)
qed

text \<open>
  \<^verbatim>\<open>_save(instance, session)\<close> on a store \<open>db\<close>: the exception, if any, and the store
  afterwards. A task made of a value that is no model instance raises when it reads
  \<^verbatim>\<open>__references__\<close>.
\<close>

function private_save ::
  "'doc rejecter \<Rightarrow> (model_instance \<Rightarrow> string set \<Rightarrow> 'doc) \<Rightarrow> model_instance \<Rightarrow> session
     \<Rightarrow> 'doc database \<Rightarrow> unit result \<times> 'doc database"
where
  "private_save reject doc inst session db =
     (case save_tasks inst (references (cls inst)) of
        Inl e \<Rightarrow> (Inl e, db)
      | Inr tasks \<Rightarrow>
          (case gather
                  (\<lambda>task db. case task of
                       Plain v \<Rightarrow> (Inl (AttributeError ''__references__''), db)
                     | Sub sub_instance \<Rightarrow> private_save reject doc sub_instance session db)
                  tasks db of
             (Inl e, db') \<Rightarrow> (Inl e, db')
           | (Inr u, db') \<Rightarrow>
               (case own_update doc inst of
                  Inl e \<Rightarrow> (Inl e, db')
                | Inr None \<Rightarrow> (Inr (), db')
                | Inr (Some upd) \<Rightarrow> update_one reject db' upd)))"
  by pat_completeness auto
termination
  by (relation "measure (\<lambda>(reject, doc, inst, session, db). size inst)")
     (auto simp: size_save_tasks)

declare private_save.simps [simp del]

subsection \<open>\<^verbatim>\<open>AIOEngine.save\<close>\<close>

text \<open>
  The session and the transaction are opened, \<^verbatim>\<open>_save\<close> runs, and the transaction commits
  when \<^verbatim>\<open>_save\<close> returns and aborts when it raises. After the commit the modified fields
  of \<^verbatim>\<open>instance\<close> are reset and the instance is returned. A duplicate key error of the
  driver is translated when \<^verbatim>\<open>"_id"\<close> is a key of \<^verbatim>\<open>e.details["keyPattern"]\<close>.
\<close>

definition save ::
  "'doc rejecter \<Rightarrow> (model_instance \<Rightarrow> string set \<Rightarrow> 'doc) \<Rightarrow> model_instance
     \<Rightarrow> 'doc database \<Rightarrow> model_instance result \<times> 'doc database"
where
  "save reject doc inst db =
     (case private_save reject doc inst Session (start_transaction db) of
        (Inr u, db') \<Rightarrow> (Inr (set_fields_modified inst {}), commit_transaction db')
      | (Inl e, db') \<Rightarrow>
          (case e of
             PyMongoDuplicateKeyError details \<Rightarrow>
               (case details of
                  None \<Rightarrow> (Inl (KeyError ''keyPattern''), abort_transaction db')
                | Some key_pattern \<Rightarrow>
                    if ''_id'' \<in> set key_pattern
                    then (Inl (DuplicatePrimaryKeyError inst), abort_transaction db')
                    else (Inl e, abort_transaction db'))
           | _ \<Rightarrow> (Inl e, abort_transaction db')))"

text \<open>The sub-instance a reference field of an instance holds, if it holds one.\<close>

definition sub_instance_of :: "model_instance \<Rightarrow> string \<Rightarrow> model_instance option" where
  "sub_instance_of inst name =
     (case map_of (attr_dict inst) name of
        Some (Sub sub) \<Rightarrow> Some sub
      | _ \<Rightarrow> None)"


subsection \<open>The updates of \<^verbatim>\<open>_save\<close> under every schedule of \<^verbatim>\<open>gather\<close>\<close>

text \<open>
  All interleavings of one sequence from each set of a list: what tasks that run
  concurrently can do together, each keeping the order of its own steps.
\<close>

fun interleavings :: "'a list set list \<Rightarrow> 'a list set" where
  "interleavings [] = {[]}"
| "interleavings (T # Ts) = (\<Union>t \<in> T. \<Union>u \<in> interleavings Ts. shuffles t u)"

text \<open>The updates an instance makes for itself: one or none.\<close>

definition own_updates :: "(model_instance \<Rightarrow> string set \<Rightarrow> 'doc) \<Rightarrow> model_instance \<Rightarrow> 'doc update list" where
  "own_updates doc inst = (case own_update doc inst of Inr (Some upd) \<Rightarrow> [upd] | _ \<Rightarrow> [])"

text \<open>
  The sequences of updates the store receives from the runs of \<^verbatim>\<open>_save\<close> that return,
  under every schedule of \<^verbatim>\<open>gather\<close>: the tasks of the sub-instances interleave in any
  way, and the update of the instance itself comes after \<^verbatim>\<open>await gather(...)\<close>.
\<close>

fun save_traces ::
  "(model_instance \<Rightarrow> string set \<Rightarrow> 'doc) \<Rightarrow> model_instance \<Rightarrow> 'doc update list set" where
  "save_traces doc inst =
     (case save_tasks inst (references (cls inst)) of
        Inl e \<Rightarrow> {}
      | Inr tasks \<Rightarrow>
          (case own_update doc inst of
             Inl e \<Rightarrow> {}
           | Inr own \<Rightarrow>
               (\<lambda>children. children @ (case own of None \<Rightarrow> [] | Some upd \<Rightarrow> [upd])) `
                 interleavings
                   (map (\<lambda>task. case task of
                                   Plain v \<Rightarrow> {}
                                 | Sub sub_instance \<Rightarrow> save_traces doc sub_instance)
                        tasks)))"

declare save_traces.simps [simp del]

subsection \<open>Example documents and cursors\<close>

text \<open>
  A parser for the examples: a raw document is a list of keys and values, it needs the
  key \<^verbatim>\<open>_id\<close>, and every field of the instance it builds counts as set.
\<close>

type_synonym raw_document = "(string \<times> bson) list"

definition example_parse_doc :: "raw_document parser" where
  "example_parse_doc m raw_doc =
     (case map_of raw_doc ''_id'' of
        None \<Rightarrow> Inl (ParseError ''_id'')
      | Some v \<Rightarrow>
          Inr (Instance m
                 (map (\<lambda>(k, v). (if k = ''_id'' then ''id'' else k, Plain v)) raw_doc)
                 (set (map (\<lambda>(k, v). if k = ''_id'' then ''id'' else k) raw_doc))))"

definition example_author :: "int \<Rightarrow> string \<Rightarrow> model_instance" where
  "example_author n name =
     Instance author_model [(''id'', Plain (BInt n)), (''name'', Plain (BStr name))] {}"

definition example_cursor :: "raw_document aio_cursor" where
  "example_cursor =
     \<lparr>cursor_model = author_model,
      motor_cursor =
        \<lparr>pending = [[(''_id'', BInt 1), (''name'', BStr ''A'')],
                    [(''_id'', BInt 2), (''name'', BStr ''B'')],
                    [(''_id'', BInt 3), (''name'', BStr ''C'')]],
         fetched = 0\<rparr>,
      results = None\<rparr>"

text \<open>A store for the examples: every collection holds the same two authors.\<close>

definition example_aggregate :: "string \<Rightarrow> unit stage list \<Rightarrow> raw_document list" where
  "example_aggregate coll pipeline =
     (if Limit 1 \<in> set pipeline
      then [[(''_id'', BInt 1), (''name'', BStr ''A'')]]
      else [[(''_id'', BInt 1), (''name'', BStr ''A'')],
            [(''_id'', BInt 2), (''name'', BStr ''B'')]])"

subsection \<open>Example instances and stores\<close>

text \<open>A document function for the examples: the plain fields to include, with their values.\<close>

definition example_doc :: "model_instance \<Rightarrow> string set \<Rightarrow> (string \<times> bson) list" where
  "example_doc inst include =
     concat (map (\<lambda>(k, v). case v of Plain b \<Rightarrow> if k \<in> include then [(k, b)] else []
                                     | Sub sub \<Rightarrow> [])
                 (attr_dict inst))"

definition modified_author :: model_instance where
  "modified_author =
     Instance author_model [(''id'', Plain (BInt 1)), (''name'', Plain (BStr ''A''))] {''name''}"

definition clean_publisher :: model_instance where
  "clean_publisher =
     Instance publisher_model [(''id'', Plain (BInt 3)), (''name'', Plain (BStr ''P''))] {}"


definition modified_book :: model_instance where
  "modified_book =
     Instance book_model
       [(''id'', Plain (BInt 7)), (''title'', Plain (BStr ''T'')),
        (''author'', Sub modified_author), (''publisher'', Sub clean_publisher)]
       {''id'', ''title''}"



definition author_update :: "(string \<times> bson) list update" where
  "author_update =
     \<lparr>update_collection = ''author'', filter_id = Plain (BInt 1),
      set_doc = [(''name'', BStr ''A'')], upsert = True, with_session = None\<rparr>"

definition book_update :: "(string \<times> bson) list update" where
  "book_update =
     \<lparr>update_collection = ''book'', filter_id = Plain (BInt 7),
      set_doc = [(''title'', BStr ''T'')], upsert = True, with_session = None\<rparr>"

text \<open>A model whose primary key is not the field \<^verbatim>\<open>id\<close>, with two instances.\<close>

definition isbn_model :: model where
  "isbn_model =
     Model ''isbn_book'' ''isbn'' [] [(''isbn'', ODMField ''_id''), (''title'', ODMField ''title'')]"

definition isbn_book :: model_instance where
  "isbn_book =
     Instance isbn_model [(''isbn'', Plain (BStr ''978'')), (''title'', Plain (BStr ''T''))]
       {''title''}"

definition isbn_book_with_id :: model_instance where
  "isbn_book_with_id =
     Instance isbn_model
       [(''isbn'', Plain (BStr ''978'')), (''id'', Plain (BInt 5)), (''title'', Plain (BStr ''T''))]
       {''title''}"

definition empty_db :: "(string \<times> bson) list database" where
  "empty_db = \<lparr>persisted = [], in_transaction = []\<rparr>"

text \<open>A store that rejects nothing, and one that rejects the updates of one collection.\<close>

definition accept_all :: "'doc rejecter" where
  "accept_all db upd = None"

definition reject_collection :: "string \<Rightarrow> py_error \<Rightarrow> 'doc rejecter" where
  "reject_collection coll e db upd = (if update_collection upd = coll then Some e else None)"


section \<open>Properties\<close>

subsection \<open>The cascade pipeline\<close>

lemma wf_model_reference:
  "wf_model m \<Longrightarrow> r \<in> set (references m) \<Longrightarrow>
   \<exists>rm k. map_of (odm_fields m) r = Some (ODMReference rm k) \<and> wf_model rm"
proof -
  assume wf: "wf_model m" and r: "r \<in> set (references m)"
  from wf have "\<forall>r \<in> set (references m).
        case map_of (odm_fields m) r of
          Some (ODMReference rm k) \<Rightarrow> wf_model rm
        | _ \<Rightarrow> False"
    by (subst (asm) wf_model.simps)
  with r have c: "case map_of (odm_fields m) r of
          Some (ODMReference rm k) \<Rightarrow> wf_model rm
        | _ \<Rightarrow> False"
    by blast
  show ?thesis
  proof (cases "map_of (odm_fields m) r")
    case None
    with c show ?thesis by simp
  next
    case (Some f)
    with c show ?thesis by (cases f) simp_all
  qed
qed

lemma for_references_Inr:
  "(\<And>r. r \<in> set rs \<Longrightarrow> body r = Inr (g r)) \<Longrightarrow>
   for_references body rs acc = Inr (acc @ concat (map g rs))"
  by (induction rs arbitrary: acc) auto

lemma cascade_namespace:
  "(cascade_find_pipeline m ns :: 'q stage list result) = cascade_find_pipeline m ns'"
proof (induction m ns arbitrary: ns' rule: cascade_find_pipeline.induct)
  case (1 m ns)
  have "(cascade_find_pipeline rm (ns @ r @ ''.'') :: 'q stage list result)
        = cascade_find_pipeline rm (ns' @ r @ ''.'')"
    if "r \<in> set (references m)" "map_of (odm_fields m) r = Some (ODMReference rm k)"
    for r rm k
    using "1.IH" [OF that refl] .
  then show ?case
    apply (subst cascade_find_pipeline.simps)
    apply (subst (2) cascade_find_pipeline.simps)
    apply (rule for_references_cong)
      apply (rule refl)
     apply (rule refl)
    apply (simp split: option.splits odm_field.splits)
    done
qed

lemma cascade_wf:
  "wf_model m \<Longrightarrow>
   (cascade_find_pipeline m ns :: 'q stage list result)
     = Inr (concat (map (ref_stages m) (references m)))"
proof (induction m ns rule: cascade_find_pipeline.induct)
  case (1 m ns)
  have body: "(case map_of (odm_fields m) r of
            None \<Rightarrow> Inl (KeyError r)
          | Some (ODMField _) \<Rightarrow> Inl (AttributeError ''model'')
          | Some (ODMReference rm k) \<Rightarrow>
              (case cascade_find_pipeline rm (ns @ r @ ''.'') of
                 Inl e \<Rightarrow> Inl e
               | Inr sub \<Rightarrow>
                   Inr [Lookup (collection rm) (''$'' @ k)
                          (Match (ExprEq ''$_id'' ''$$foreign_id'') # sub) r,
                        Unwind (''$'' @ r)])) = Inr (ref_stages m r :: 'q stage list)"
    if r: "r \<in> set (references m)" for r
  proof -
    from wf_model_reference [OF "1.prems" r] obtain rm k where
      f: "map_of (odm_fields m) r = Some (ODMReference rm k)" and wf: "wf_model rm"
      by blast
    have a: "cascade_find_pipeline rm (ns @ r @ ''.'') =
          (Inr (concat (map (ref_stages rm) (references rm))) :: 'q stage list result)"
      using "1.IH" [OF r f refl wf] .
    have b: "(cascade_find_pipeline rm [] :: 'q stage list result)
          = cascade_find_pipeline rm (ns @ r @ ''.'')"
      by (rule cascade_namespace)
    show ?thesis using f a b by (simp add: ref_stages_def)
  qed
  show ?case
    by (subst cascade_find_pipeline.simps)
       (simp add: for_references_Inr [where g = "ref_stages m"] body)
qed

lemma concat_pairs_length:
  "(\<And>x. x \<in> set xs \<Longrightarrow> length (g x) = 2) \<Longrightarrow> length (concat (map g xs)) = 2 * length xs"
  by (induction xs) auto

lemma concat_pairs_nth:
  "(\<And>x. x \<in> set xs \<Longrightarrow> length (g x) = 2) \<Longrightarrow> i < length xs \<Longrightarrow>
   concat (map g xs) ! (2 * i) = g (xs ! i) ! 0 \<and>
   concat (map g xs) ! (2 * i + 1) = g (xs ! i) ! 1"
proof (induction xs arbitrary: i)
  case Nil
  then show ?case by simp
next
  case (Cons x xs)
  have lx: "length (g x) = 2" using Cons.prems(1) by simp
  show ?case
  proof (cases i)
    case 0
    then show ?thesis using lx by (simp add: nth_append)
  next
    case (Suc j)
    then have "j < length xs" using Cons.prems(2) by simp
    then have IH: "concat (map g xs) ! (2 * j) = g (xs ! j) ! 0 \<and>
                   concat (map g xs) ! (2 * j + 1) = g (xs ! j) ! 1"
      using Cons.IH Cons.prems(1) by simp
    show ?thesis using Suc lx IH by (simp add: nth_append)
  qed
qed

lemma lookup_levels_append:
  "lookup_levels (xs @ ys) = max (lookup_levels xs) (lookup_levels ys)"
  by (induction xs) auto

lemma lookup_levels_concat:
  "lookup_levels (concat (map g xs)) = foldr max (map (\<lambda>x. lookup_levels (g x)) xs) 0"
  by (induction xs) (auto simp: lookup_levels_append)

lemma levels_cascade:
  "wf_model m \<Longrightarrow>
   lookup_levels (concat (map (ref_stages m) (references m)) :: 'q stage list) = levels m"
proof (induction m rule: levels.induct)
  case (1 m)
  have "lookup_levels (ref_stages m r :: 'q stage list) =
        (case map_of (odm_fields m) r of
           Some (ODMReference rm k) \<Rightarrow> Suc (levels rm) | _ \<Rightarrow> 0)"
    if r: "r \<in> set (references m)" for r
  proof -
    from wf_model_reference [OF "1.prems" r] obtain rm k where
      f: "map_of (odm_fields m) r = Some (ODMReference rm k)" and wf: "wf_model rm"
      by blast
    have "(cascade_find_pipeline rm [] :: 'q stage list result)
          = Inr (concat (map (ref_stages rm) (references rm)))"
      using wf by (rule cascade_wf)
    moreover have "lookup_levels (concat (map (ref_stages rm) (references rm)) :: 'q stage list)
          = levels rm"
      using "1.IH" [OF r f refl wf] .
    ultimately show ?thesis using f by (simp add: ref_stages_def)
  qed
  then have "map (\<lambda>r. lookup_levels (ref_stages m r :: 'q stage list)) (references m)
      = map (\<lambda>r. case map_of (odm_fields m) r of
           Some (ODMReference rm k) \<Rightarrow> Suc (levels rm) | _ \<Rightarrow> 0) (references m)"
    by simp
  then show ?case
    by (subst levels.simps) (simp only: lookup_levels_concat)
qed

lemma ref_stages_shape:
  "s \<in> set (ref_stages m r) \<Longrightarrow> (\<exists>f l p a. s = Lookup f l p a) \<or> (\<exists>u. s = Unwind u)"
  by (auto simp: ref_stages_def split: option.splits odm_field.splits)

lemma ref_stages_wf:
  assumes "wf_model m" "r \<in> set (references m)"
  shows "\<exists>rm k sub. map_of (odm_fields m) r = Some (ODMReference rm k)
           \<and> (cascade_find_pipeline rm [] :: 'q stage list result) = Inr sub
           \<and> (ref_stages m r :: 'q stage list) =
               [Lookup (collection rm) (''$'' @ k)
                  (Match (ExprEq ''$_id'' ''$$foreign_id'') # sub) r,
                Unwind (''$'' @ r)]"
proof -
  from wf_model_reference [OF assms] obtain rm k where
    f: "map_of (odm_fields m) r = Some (ODMReference rm k)" and wf: "wf_model rm"
    by blast
  have "(cascade_find_pipeline rm [] :: 'q stage list result)
        = Inr (concat (map (ref_stages rm) (references rm)))"
    using wf by (rule cascade_wf)
  then show ?thesis using f by (simp add: ref_stages_def)
qed

lemma cascade_find_pipeline_total:
  "wf_model m \<Longrightarrow> \<exists>p. (cascade_find_pipeline m ns :: 'q stage list result) = Inr p"
  by (simp add: cascade_wf)

text \<open>
  Claim C3. Building the cascade pipeline of a model with well-formed reference metadata
  always succeeds and depends on the model alone (the name space argument has no effect,
  and there is no state to read or write). The pipeline holds exactly one lookup and
  unwind pair per reference field, in declaration order: the lookup reads the referenced
  model's collection, binds \<^verbatim>\<open>foreign_id\<close> to the reference's key name, matches on the
  identifier, continues with the referenced model's own cascade pipeline and writes under
  the field name; the unwind flattens that field. The lookups nest exactly as deep as
  the references do.
\<close>

theorem cascade_find_pipeline_structure:
  assumes wf: "wf_model m"
  shows "\<exists>p. (cascade_find_pipeline m ns :: 'q stage list result) = Inr p
     \<and> cascade_find_pipeline m ns' = Inr p
     \<and> length p = 2 * length (references m)
     \<and> (\<forall>i < length (references m). \<exists>rm k sub.
           map_of (odm_fields m) (references m ! i) = Some (ODMReference rm k)
         \<and> cascade_find_pipeline rm [] = Inr sub
         \<and> p ! (2 * i) = Lookup (collection rm) (''$'' @ k)
                            (Match (ExprEq ''$_id'' ''$$foreign_id'') # sub) (references m ! i)
         \<and> p ! (2 * i + 1) = Unwind (''$'' @ references m ! i))
     \<and> lookup_levels p = levels m"
proof -
  let ?p = "concat (map (ref_stages m) (references m)) :: 'q stage list"
  have len2: "length (ref_stages m r :: 'q stage list) = 2" if "r \<in> set (references m)" for r
    using ref_stages_wf [OF wf that, where ?'q = 'q] by auto
  have 1: "cascade_find_pipeline m ns = Inr ?p" using wf by (rule cascade_wf)
  have 2: "cascade_find_pipeline m ns' = Inr ?p" using wf by (rule cascade_wf)
  have 3: "length ?p = 2 * length (references m)"
    using len2 by (rule concat_pairs_length)
  have 4: "\<exists>rm k sub.
           map_of (odm_fields m) (references m ! i) = Some (ODMReference rm k)
         \<and> (cascade_find_pipeline rm [] :: 'q stage list result) = Inr sub
         \<and> ?p ! (2 * i) = Lookup (collection rm) (''$'' @ k)
                            (Match (ExprEq ''$_id'' ''$$foreign_id'') # sub) (references m ! i)
         \<and> ?p ! (2 * i + 1) = Unwind (''$'' @ references m ! i)"
    if i: "i < length (references m)" for i
  proof -
    have r: "references m ! i \<in> set (references m)" using i by simp
    from ref_stages_wf [OF wf r, where ?'q = 'q] obtain rm k sub where
      f: "map_of (odm_fields m) (references m ! i) = Some (ODMReference rm k)" and
      c: "(cascade_find_pipeline rm [] :: 'q stage list result) = Inr sub" and
      s: "(ref_stages m (references m ! i) :: 'q stage list) =
               [Lookup (collection rm) (''$'' @ k)
                  (Match (ExprEq ''$_id'' ''$$foreign_id'') # sub) (references m ! i),
                Unwind (''$'' @ references m ! i)]"
      by blast
    have n: "?p ! (2 * i) = ref_stages m (references m ! i) ! 0 \<and>
          ?p ! (2 * i + 1) = ref_stages m (references m ! i) ! 1"
      using len2 i by (rule concat_pairs_nth)
    show ?thesis using f c s n by simp
  qed
  have 5: "lookup_levels ?p = levels m" using wf by (rule levels_cascade)
  show ?thesis using 1 2 3 4 5 by blast
qed

theorem cascade_find_pipeline_structure_witness:
  "wf_model loan_model \<and>
   (cascade_find_pipeline loan_model [] :: unit stage list result) =
     Inr [Lookup ''book'' ''$book''
            [Match (ExprEq ''$_id'' ''$$foreign_id''),
             Lookup ''author'' ''$author'' [Match (ExprEq ''$_id'' ''$$foreign_id'')] ''author'',
             Unwind ''$author'',
             Lookup ''publisher'' ''$publisher_id''
               [Match (ExprEq ''$_id'' ''$$foreign_id'')] ''publisher'',
             Unwind ''$publisher'']
            ''book'',
          Unwind ''$book''] \<and>
   levels loan_model = 2"
proof -
  have wf: "wf_model loan_model" by code_simp
  have c: "(cascade_find_pipeline loan_model [] :: unit stage list result) =
     Inr [Lookup ''book'' ''$book''
            [Match (ExprEq ''$_id'' ''$$foreign_id''),
             Lookup ''author'' ''$author'' [Match (ExprEq ''$_id'' ''$$foreign_id'')] ''author'',
             Unwind ''$author'',
             Lookup ''publisher'' ''$publisher_id''
               [Match (ExprEq ''$_id'' ''$$foreign_id'')] ''publisher'',
             Unwind ''$publisher'']
            ''book'',
          Unwind ''$book'']"
    by code_simp
  from cascade_find_pipeline_structure [OF wf, of "[]" "[]", where ?'q = unit] obtain p where
    "(cascade_find_pipeline loan_model [] :: unit stage list result) = Inr p"
    "lookup_levels p = levels loan_model"
    by blast
  with c have "levels loan_model = 2" by auto
  with wf c show ?thesis by blast
qed

subsection \<open>The pipeline of \<^verbatim>\<open>find\<close>\<close>

lemma cascade_stages_shape:
  assumes "wf_model m" "(cascade_find_pipeline m ns :: 'q stage list result) = Inr casc"
    "s \<in> set casc"
  shows "(\<exists>f l p a. s = Lookup f l p a) \<or> (\<exists>u. s = Unwind u)"
proof -
  have "casc = concat (map (ref_stages m) (references m))"
    using cascade_wf [OF assms(1), of ns, where ?'q = 'q] assms(2) by simp
  with assms(3) obtain r where "s \<in> set (ref_stages m r)" by auto
  then show ?thesis by (rule ref_stages_shape)
qed

text \<open>
  Claim C7. The pipeline of \<^verbatim>\<open>find\<close> is the match on the caller's query, then the
  limit stage, then the skip stage, then the cascade stages of the model. The limit
  stage is present exactly when \<open>limit > 0\<close> and the skip stage exactly when
  \<open>skip > 0\<close>; a stage with the value zero is never sent.
\<close>

theorem find_pipeline_order:
  assumes wf: "wf_model m"
  shows "\<exists>p casc. find_pipeline m query limit skip = Inr p
     \<and> cascade_find_pipeline m [] = Inr casc
     \<and> p = [Match (Filter query)] @ (if limit > 0 then [Limit limit] else [])
            @ (if skip > 0 then [Skip skip] else []) @ casc
     \<and> ((\<exists>n. Limit n \<in> set p) \<longleftrightarrow> limit > 0)
     \<and> ((\<exists>n. Skip n \<in> set p) \<longleftrightarrow> skip > 0)
     \<and> Limit 0 \<notin> set p \<and> Skip 0 \<notin> set p"
proof -
  from cascade_find_pipeline_total [OF wf] obtain casc where
    c: "(cascade_find_pipeline m [] :: 'a stage list result) = Inr casc" by blast
  let ?p = "[Match (Filter query)] @ (if limit > 0 then [Limit limit] else [])
            @ (if skip > 0 then [Skip skip] else []) @ casc"
  have fp: "find_pipeline m query limit skip = Inr ?p"
    using c by (simp add: find_pipeline_def)
  have nl: "Limit n \<notin> set casc" for n
    using cascade_stages_shape [OF wf c, of "Limit n"] by auto
  have nk: "Skip n \<notin> set casc" for n
    using cascade_stages_shape [OF wf c, of "Skip n"] by auto
  have l: "(\<exists>n. Limit n \<in> set ?p) \<longleftrightarrow> limit > 0" using nl by auto
  have k: "(\<exists>n. Skip n \<in> set ?p) \<longleftrightarrow> skip > 0" using nk by auto
  have l0: "Limit 0 \<notin> set ?p" using nl by auto
  have k0: "Skip 0 \<notin> set ?p" using nk by auto
  show ?thesis using fp c l k l0 k0 by blast
qed

theorem find_pipeline_order_witness:
  "wf_model book_model \<and>
   find_pipeline book_model () 0 5 =
     Inr [Match (Filter ()), Skip 5,
          Lookup ''author'' ''$author'' [Match (ExprEq ''$_id'' ''$$foreign_id'')] ''author'',
          Unwind ''$author'',
          Lookup ''publisher'' ''$publisher_id''
            [Match (ExprEq ''$_id'' ''$$foreign_id'')] ''publisher'',
          Unwind ''$publisher'']"
proof -
  have wf: "wf_model book_model" by code_simp
  have c: "(cascade_find_pipeline book_model [] :: unit stage list result) =
     Inr [Lookup ''author'' ''$author'' [Match (ExprEq ''$_id'' ''$$foreign_id'')] ''author'',
          Unwind ''$author'',
          Lookup ''publisher'' ''$publisher_id''
            [Match (ExprEq ''$_id'' ''$$foreign_id'')] ''publisher'',
          Unwind ''$publisher'']"
    by code_simp
  from find_pipeline_order [OF wf, of "()" 0 5] obtain p casc where
    "find_pipeline book_model () 0 5 = Inr p"
    "(cascade_find_pipeline book_model [] :: unit stage list result) = Inr casc"
    "p = [Match (Filter ())] @ (if (0::int) > 0 then [Limit 0] else [])
            @ (if (5::int) > 0 then [Skip 5] else []) @ casc"
    by blast
  with c wf show ?thesis by simp
qed

subsection \<open>Materializing a cursor\<close>

lemma parse_document_cong:
  "cursor_model a = cursor_model b \<Longrightarrow> parse_document p a raw = parse_document p b raw"
  by (simp add: parse_document_def)

lemma parse_document_motor [simp]:
  "parse_document p (self\<lparr>motor_cursor := mc\<rparr>) = parse_document p self"
  by (rule ext) (simp add: parse_document_def)

lemma parse_all_motor [simp]:
  "parse_all p (self\<lparr>motor_cursor := mc\<rparr>) raws acc = parse_all p self raws acc"
  by (induction raws arbitrary: acc) (auto split: sum.splits)

lemma parse_all_cong:
  "cursor_model a = cursor_model b \<Longrightarrow> parse_all p a raws acc = parse_all p b raws acc"
  by (induction raws arbitrary: acc) (auto simp: parse_document_cong [of a b] split: sum.splits)

lemma parse_all_I:
  "list_all2 (\<lambda>raw x. parse_document p s raw = Inr x) raws xs \<Longrightarrow>
   parse_all p s raws acc = Inr (acc @ xs)"
  by (induction raws xs arbitrary: acc rule: list_all2_induct) auto

lemma parse_all_D:
  "parse_all p s raws acc = Inr r \<Longrightarrow>
   \<exists>xs. r = acc @ xs \<and> list_all2 (\<lambda>raw x. parse_document p s raw = Inr x) raws xs"
proof (induction raws arbitrary: acc)
  case Nil
  then show ?case by auto
next
  case (Cons raw raws)
  then obtain x where x: "parse_document p s raw = Inr x"
    and r: "parse_all p s raws (acc @ [x]) = Inr r"
    by (auto split: sum.splits)
  from Cons.IH [OF r] obtain xs where
    "r = (acc @ [x]) @ xs" "list_all2 (\<lambda>raw x. parse_document p s raw = Inr x) raws xs"
    by blast
  with x show ?case by (intro exI [of _ "x # xs"]) simp
qed

lemma iterate_Replaying:
  "iterate p (Replaying rest) self out = (Inr (out @ rest), self)"
proof (induction rest arbitrary: out)
  case Nil
  show ?case by (subst iterate.simps) (simp add: replay_step_def)
next
  case (Cons x rest)
  show ?case by (subst iterate.simps) (simp add: replay_step_def Cons.IH)
qed

lemma iterate_Streaming:
  "list_all2 (\<lambda>raw x. parse_document p self raw = Inr x) (pending (motor_cursor self)) xs \<Longrightarrow>
   iterate p (Streaming acc) self out =
     (Inr (out @ xs),
      self\<lparr>motor_cursor := \<lparr>pending = [],
               fetched = fetched (motor_cursor self) + length (pending (motor_cursor self))\<rparr>,
           results := Some (acc @ xs)\<rparr>)"
proof (induction xs arbitrary: self acc out)
  case Nil
  then have "pending (motor_cursor self) = []" by simp
  then show ?case
    by (subst iterate.simps) (simp add: stream_step_def next_raw_def)
next
  case (Cons x xs)
  then obtain raw raws where
    pend: "pending (motor_cursor self) = raw # raws" and
    px: "parse_document p self raw = Inr x" and
    rest: "list_all2 (\<lambda>raw x. parse_document p self raw = Inr x) raws xs"
    by (auto simp: list_all2_Cons2)
  let ?self = "self\<lparr>motor_cursor := \<lparr>pending = raws, fetched = fetched (motor_cursor self) + 1\<rparr>\<rparr>"
  have pd: "parse_document p ?self = parse_document p self"
    by (rule ext) (simp add: parse_document_def)
  have "list_all2 (\<lambda>raw x. parse_document p ?self raw = Inr x) (pending (motor_cursor ?self)) xs"
    using rest by (simp add: parse_document_def)
  from Cons.IH [OF this, of "acc @ [x]" "out @ [x]"]
  show ?case
    using pend px
    by (subst iterate.simps) (simp add: stream_step_def next_raw_def Let_def)
qed

lemma cursor_await_None:
  assumes "results self = None"
  shows "cursor_await p self =
     (case parse_all p self (pending (motor_cursor self)) [] of
        Inl e \<Rightarrow> (Inl e, self\<lparr>motor_cursor := \<lparr>pending = [],
               fetched = fetched (motor_cursor self) + length (pending (motor_cursor self))\<rparr>\<rparr>)
      | Inr xs \<Rightarrow> (Inr xs, self\<lparr>motor_cursor := \<lparr>pending = [],
               fetched = fetched (motor_cursor self) + length (pending (motor_cursor self))\<rparr>,
           results := Some xs\<rparr>))"
proof -
  let ?self = "self\<lparr>motor_cursor := \<lparr>pending = [],
               fetched = fetched (motor_cursor self) + length (pending (motor_cursor self))\<rparr>\<rparr>"
  have pa: "parse_all p ?self raws [] = parse_all p self raws []" for raws
    by (rule parse_all_cong) simp
  show ?thesis
    using assms
    by (simp add: cursor_await_def to_list_def Let_def pa split: sum.splits)
qed

lemma parse_all_acc_Inl:
  "parse_all p s raws acc = Inl e \<Longrightarrow> parse_all p s raws acc' = Inl e"
  by (induction raws arbitrary: acc acc') (auto split: sum.splits)

lemma iterate_Streaming_Inl:
  "pending (motor_cursor self) = raws \<Longrightarrow> parse_all p self raws [] = Inl e \<Longrightarrow>
   fst (iterate p (Streaming acc) self out) = Inl e"
proof (induction raws arbitrary: self acc out)
  case Nil
  then show ?case by simp
next
  case (Cons raw raws)
  show ?case
  proof (cases "parse_document p self raw")
    case (Inl e')
    with Cons.prems show ?thesis
      by (subst iterate.simps) (simp add: stream_step_def next_raw_def Let_def)
  next
    case (Inr x)
    let ?self = "self\<lparr>motor_cursor := \<lparr>pending = raws, fetched = fetched (motor_cursor self) + 1\<rparr>\<rparr>"
    have "parse_all p self raws [x] = Inl e" using Cons.prems Inr by simp
    then have "parse_all p self raws [] = Inl e" by (rule parse_all_acc_Inl)
    then have "parse_all p ?self raws [] = Inl e" by simp
    moreover have "pending (motor_cursor ?self) = raws" by simp
    ultimately have "fst (iterate p (Streaming (acc @ [x])) ?self (out @ [x])) = Inl e"
      by (rule Cons.IH [rotated])
    then show ?thesis
      using Cons.prems(1) Inr
      by (subst iterate.simps) (simp add: stream_step_def next_raw_def Let_def)
  qed
qed

lemma cursor_aiter_Some:
  "results self = Some cached \<Longrightarrow> cursor_aiter p self = (Inr cached, self)"
  unfolding cursor_aiter_def
  using iterate_Replaying [of p cached self "[]"]
  by (subst iterate.simps, subst (asm) iterate.simps) simp

lemma cursor_await_Some:
  "results self = Some cached \<Longrightarrow> cursor_await p self = (Inr cached, self)"
  by (simp add: cursor_await_def)

lemma iterate_Created_None:
  "results self = None \<Longrightarrow> iterate p Created self out = iterate p (Streaming []) self out"
  by (subst iterate.simps, subst (2) iterate.simps) simp

lemma cursor_aiter_None:
  assumes "results self = None" "cursor_aiter p self = (Inr xs, self')"
  shows "parse_all p self (pending (motor_cursor self)) [] = Inr xs \<and>
     self' = self\<lparr>motor_cursor := \<lparr>pending = [],
               fetched = fetched (motor_cursor self) + length (pending (motor_cursor self))\<rparr>,
           results := Some xs\<rparr>"
proof (cases "parse_all p self (pending (motor_cursor self)) []")
  case (Inl e)
  from iterate_Streaming_Inl [OF refl this, of "[]" "[]"] assms show ?thesis
    by (simp add: cursor_aiter_def iterate_Created_None)
next
  case (Inr ys)
  from parse_all_D [OF this] have
    "list_all2 (\<lambda>raw x. parse_document p self raw = Inr x) (pending (motor_cursor self)) ys"
    by simp
  from iterate_Streaming [OF this, of "[]" "[]"] assms Inr show ?thesis
    by (auto simp: cursor_aiter_def iterate_Created_None)
qed

lemma cursor_await_None_Inr:
  assumes "results self = None" "cursor_await p self = (Inr xs, self')"
  shows "parse_all p self (pending (motor_cursor self)) [] = Inr xs \<and>
     self' = self\<lparr>motor_cursor := \<lparr>pending = [],
               fetched = fetched (motor_cursor self) + length (pending (motor_cursor self))\<rparr>,
           results := Some xs\<rparr>"
  using assms by (auto simp: cursor_await_None split: sum.splits)

lemma materialize_first:
  assumes "first = cursor_await p \<or> first = cursor_aiter p"
    and "first self = (Inr xs, self')"
  shows "results self' = Some xs \<and>
     fetched (motor_cursor self') = fetched (motor_cursor self) +
       (case results self of None \<Rightarrow> length (pending (motor_cursor self)) | Some cached \<Rightarrow> 0)"
proof (cases "results self")
  case None
  have "self' = self\<lparr>motor_cursor := \<lparr>pending = [],
               fetched = fetched (motor_cursor self) + length (pending (motor_cursor self))\<rparr>,
           results := Some xs\<rparr>"
    using assms(1)
  proof
    assume "first = cursor_await p"
    with assms(2) have "cursor_await p self = (Inr xs, self')" by simp
    from cursor_await_None_Inr [OF None this] show ?thesis by simp
  next
    assume "first = cursor_aiter p"
    with assms(2) have "cursor_aiter p self = (Inr xs, self')" by simp
    from cursor_aiter_None [OF None this] show ?thesis by simp
  qed
  then show ?thesis using None by simp
next
  case (Some cached)
  have "first self = (Inr cached, self)"
    using assms(1) cursor_await_Some [OF Some, of p] cursor_aiter_Some [OF Some, of p]
    by (elim disjE) simp_all
  with assms(2) have "(Inr cached, self) = (Inr xs, self')" by simp
  then show ?thesis using Some by simp
qed

text \<open>
  Claim C4. Whenever a cursor has been materialized in full, by \<^verbatim>\<open>await\<close> or by a
  complete asynchronous iteration, materializing it again, by either of the two, returns
  the same list of instances and leaves the cursor as it is: the second consumption reads
  nothing from the driver's cursor and is served from \<^verbatim>\<open>_results\<close>, which holds that
  list. The first consumption reads every pending document of the driver's cursor once
  if nothing was cached, and nothing otherwise.
\<close>

theorem cursor_materialize_twice:
  assumes first: "first = cursor_await parse_doc \<or> first = cursor_aiter parse_doc"
    and second: "second = cursor_await parse_doc \<or> second = cursor_aiter parse_doc"
    and ok: "first self = (Inr xs, self')"
  shows "second self' = (Inr xs, self') \<and> results self' = Some xs \<and>
     fetched (motor_cursor self') = fetched (motor_cursor self) +
       (case results self of None \<Rightarrow> length (pending (motor_cursor self)) | Some cached \<Rightarrow> 0)"
proof -
  from materialize_first [OF first ok] have r: "results self' = Some xs" and
    f: "fetched (motor_cursor self') = fetched (motor_cursor self) +
       (case results self of None \<Rightarrow> length (pending (motor_cursor self)) | Some cached \<Rightarrow> 0)"
    by simp_all
  from second have "second self' = (Inr xs, self')"
    using cursor_await_Some [OF r, of parse_doc] cursor_aiter_Some [OF r, of parse_doc]
    by (elim disjE) simp_all
  with r f show ?thesis by simp
qed

theorem cursor_materialize_twice_witness:
  "cursor_aiter example_parse_doc example_cursor =
     (Inr [example_author 1 ''A'', example_author 2 ''B'', example_author 3 ''C''],
      example_cursor\<lparr>motor_cursor := \<lparr>pending = [], fetched = 3\<rparr>,
        results := Some [example_author 1 ''A'', example_author 2 ''B'', example_author 3 ''C'']\<rparr>) \<and>
   cursor_await example_parse_doc
     (example_cursor\<lparr>motor_cursor := \<lparr>pending = [], fetched = 3\<rparr>,
        results := Some [example_author 1 ''A'', example_author 2 ''B'', example_author 3 ''C'']\<rparr>) =
     (Inr [example_author 1 ''A'', example_author 2 ''B'', example_author 3 ''C''],
      example_cursor\<lparr>motor_cursor := \<lparr>pending = [], fetched = 3\<rparr>,
        results := Some [example_author 1 ''A'', example_author 2 ''B'', example_author 3 ''C'']\<rparr>)"
proof -
  let ?xs = "[example_author 1 ''A'', example_author 2 ''B'', example_author 3 ''C'']"
  let ?c = "example_cursor\<lparr>motor_cursor := \<lparr>pending = [], fetched = 3\<rparr>, results := Some ?xs\<rparr>"
  have ok: "cursor_aiter example_parse_doc example_cursor = (Inr ?xs, ?c)"
    by code_simp
  from cursor_materialize_twice [of "cursor_aiter example_parse_doc" example_parse_doc
      "cursor_await example_parse_doc" example_cursor ?xs ?c] ok
  show ?thesis by simp
qed

lemma anext_n_Streaming:
  "list_all2 (\<lambda>raw x. parse_document p self raw = Inr x) (pending (motor_cursor self)) xs \<Longrightarrow>
   k \<le> length xs \<Longrightarrow>
   \<exists>self'. anext_n p k (Streaming acc) self = (take k xs, Streaming (acc @ take k xs), self')
     \<and> results self' = results self \<and> cursor_model self' = cursor_model self
     \<and> pending (motor_cursor self') = drop k (pending (motor_cursor self))
     \<and> fetched (motor_cursor self') = fetched (motor_cursor self) + k"
proof (induction k arbitrary: self acc xs)
  case 0
  then show ?case by simp
next
  case (Suc k)
  from Suc.prems obtain x xs' where xs: "xs = x # xs'" by (cases xs) auto
  with Suc.prems obtain raw raws where
    pend: "pending (motor_cursor self) = raw # raws" and
    px: "parse_document p self raw = Inr x" and
    rest: "list_all2 (\<lambda>raw x. parse_document p self raw = Inr x) raws xs'"
    by (auto simp: list_all2_Cons2)
  let ?self = "self\<lparr>motor_cursor := \<lparr>pending = raws, fetched = fetched (motor_cursor self) + 1\<rparr>\<rparr>"
  have "list_all2 (\<lambda>raw x. parse_document p ?self raw = Inr x) (pending (motor_cursor ?self)) xs'"
    using rest by simp
  moreover have "k \<le> length xs'" using Suc.prems(2) xs by simp
  ultimately obtain self' where
    s: "anext_n p k (Streaming (acc @ [x])) ?self =
          (take k xs', Streaming ((acc @ [x]) @ take k xs'), self')"
     "results self' = results ?self" "cursor_model self' = cursor_model ?self"
     "pending (motor_cursor self') = drop k (pending (motor_cursor ?self))"
     "fetched (motor_cursor self') = fetched (motor_cursor ?self) + k"
    using Suc.IH [of ?self xs' "acc @ [x]"] by blast
  have "anext p (Streaming acc) self = (Yield x, Streaming (acc @ [x]), ?self)"
    using pend px by (simp add: stream_step_def next_raw_def Let_def)
  with s xs pend show ?case by simp
qed

lemma anext_n_Created_None:
  "results self = None \<Longrightarrow> 0 < k \<Longrightarrow>
   anext_n p k Created self = anext_n p k (Streaming []) self"
  by (cases k) simp_all

text \<open>
  Claim C10. Let the documents pending in the driver's cursor all parse, to \<open>insts\<close>.
  If an iteration of a cursor without cached results takes \<open>k\<close> instances and is then
  abandoned, the generator has not finished, \<^verbatim>\<open>_results\<close> is still unset and the
  instances yielded are kept nowhere in the cursor; a later \<^verbatim>\<open>await\<close> returns only the
  instances of the documents that remained, \<open>drop k insts\<close>, and caches that list as
  the materialized result, so every later consumption misses the first \<open>k\<close> instances.
\<close>

theorem abandoned_iteration_then_await:
  assumes none: "results self = None"
    and parsed: "parse_all parse_doc self (pending (motor_cursor self)) [] = Inr insts"
    and k: "k \<le> length insts"
  shows "\<exists>g self' self''.
       anext_n parse_doc k Created self = (take k insts, g, self')
     \<and> g \<noteq> Finished
     \<and> results self' = None
     \<and> cursor_await parse_doc self' = (Inr (drop k insts), self'')
     \<and> results self'' = Some (drop k insts)
     \<and> length (drop k insts) = length insts - k
     \<and> cursor_aiter parse_doc self'' = (Inr (drop k insts), self'')"
proof -
  from parse_all_D [OF parsed] have
    all: "list_all2 (\<lambda>raw x. parse_document parse_doc self raw = Inr x)
            (pending (motor_cursor self)) insts"
    by simp
  have "\<exists>g self'. anext_n parse_doc k Created self = (take k insts, g, self')
     \<and> g \<noteq> Finished \<and> results self' = None \<and> cursor_model self' = cursor_model self
     \<and> pending (motor_cursor self') = drop k (pending (motor_cursor self))"
  proof (cases k)
    case 0
    then show ?thesis using none by simp
  next
    case (Suc n)
    from anext_n_Streaming [OF all k, of "[]"] none
    show ?thesis by (auto simp: anext_n_Created_None Suc)
  qed
  then obtain g self' where
    a: "anext_n parse_doc k Created self = (take k insts, g, self')" "g \<noteq> Finished" and
    r: "results self' = None" and m: "cursor_model self' = cursor_model self" and
    p: "pending (motor_cursor self') = drop k (pending (motor_cursor self))"
    by blast
  have "list_all2 (\<lambda>raw x. parse_document parse_doc self' raw = Inr x)
            (pending (motor_cursor self')) (drop k insts)"
    using list_all2_dropI [OF all, of k] p
    by (simp add: parse_document_cong [OF m])
  then have pa: "parse_all parse_doc self' (pending (motor_cursor self')) [] = Inr (drop k insts)"
    using parse_all_I [where acc = "[]"] by fastforce
  let ?self'' = "self'\<lparr>motor_cursor := \<lparr>pending = [],
               fetched = fetched (motor_cursor self') + length (pending (motor_cursor self'))\<rparr>,
           results := Some (drop k insts)\<rparr>"
  have aw: "cursor_await parse_doc self' = (Inr (drop k insts), ?self'')"
    by (simp add: cursor_await_None [OF r] pa)
  have rs: "results ?self'' = Some (drop k insts)" by simp
  have it: "cursor_aiter parse_doc ?self'' = (Inr (drop k insts), ?self'')"
    using rs by (rule cursor_aiter_Some)
  have "length (drop k insts) = length insts - k" by simp
  with a r aw rs it show ?thesis by blast
qed

theorem abandoned_iteration_then_await_witness:
  "anext_n example_parse_doc 1 Created example_cursor =
     ([example_author 1 ''A''], Streaming [example_author 1 ''A''],
      example_cursor\<lparr>motor_cursor := \<lparr>pending = [[(''_id'', BInt 2), (''name'', BStr ''B'')],
                    [(''_id'', BInt 3), (''name'', BStr ''C'')]], fetched = 1\<rparr>\<rparr>) \<and>
   fst (cursor_await example_parse_doc
     (example_cursor\<lparr>motor_cursor := \<lparr>pending = [[(''_id'', BInt 2), (''name'', BStr ''B'')],
                    [(''_id'', BInt 3), (''name'', BStr ''C'')]], fetched = 1\<rparr>\<rparr>)) =
     Inr [example_author 2 ''B'', example_author 3 ''C'']"
proof -
  let ?xs = "[example_author 1 ''A'', example_author 2 ''B'', example_author 3 ''C'']"
  let ?c = "example_cursor\<lparr>motor_cursor := \<lparr>pending = [[(''_id'', BInt 2), (''name'', BStr ''B'')],
                    [(''_id'', BInt 3), (''name'', BStr ''C'')]], fetched = 1\<rparr>\<rparr>"
  have none: "results example_cursor = None" by (simp add: example_cursor_def)
  have parsed: "parse_all example_parse_doc example_cursor
      (pending (motor_cursor example_cursor)) [] = Inr ?xs"
    by code_simp
  have step: "anext_n example_parse_doc 1 Created example_cursor =
     ([example_author 1 ''A''], Streaming [example_author 1 ''A''], ?c)"
    by code_simp
  from abandoned_iteration_then_await [OF none parsed, of 1] step
  show ?thesis by auto
qed

subsection \<open>\<^verbatim>\<open>find_one\<close> and \<^verbatim>\<open>find\<close>\<close>

lemma find_pipeline_limit_one:
  assumes "wf_model m"
  shows "\<exists>p. find_pipeline m query 1 0 = Inr p \<and> Limit 1 \<in> set p"
proof -
  from cascade_find_pipeline_total [OF assms] obtain casc where
    "(cascade_find_pipeline m [] :: 'a stage list result) = Inr casc" by blast
  then show ?thesis by (simp add: find_pipeline_def)
qed

text \<open>
  Claim C9. For a model class with well-formed reference metadata, \<^verbatim>\<open>find_one\<close> is the
  same as materializing \<^verbatim>\<open>find\<close> with the limit 1 and taking the first instance, if any:
  the pipeline holds the stage \<^verbatim>\<open>{"$limit": 1}\<close>; when the store delivers no document
  the result is \<^verbatim>\<open>None\<close>; when the materialized list is not empty the result is its first
  instance, which is the parsed first document; an exception of the materialization is
  passed on.
\<close>

theorem find_one_refines_find:
  assumes wf: "wf_model m"
  shows "find_one aggregate parse_doc (ModelType m) query
           = find_one_spec aggregate parse_doc m query
     \<and> (\<exists>p cursor.
           find_pipeline m query 1 0 = Inr p
         \<and> Limit 1 \<in> set p
         \<and> find aggregate (ModelType m) query 1 0 = Inr cursor
         \<and> pending (motor_cursor cursor) = aggregate (collection m) p
         \<and> results cursor = None
         \<and> (aggregate (collection m) p = [] \<longrightarrow>
              find_one aggregate parse_doc (ModelType m) query = Inr None)
         \<and> (\<forall>first others.
               fst (cursor_await parse_doc cursor) = Inr (first # others) \<longrightarrow>
               find_one aggregate parse_doc (ModelType m) query = Inr (Some first))
         \<and> (\<forall>raw_doc others inst.
               aggregate (collection m) p = raw_doc # others \<longrightarrow>
               find_one aggregate parse_doc (ModelType m) query = Inr (Some inst) \<longrightarrow>
               parse_document parse_doc cursor raw_doc = Inr inst)
         \<and> (\<forall>e. fst (cursor_await parse_doc cursor) = Inl e \<longrightarrow>
               find_one aggregate parse_doc (ModelType m) query = Inl e))"
proof -
  have eq: "find_one aggregate parse_doc (ModelType m) query
           = find_one_spec aggregate parse_doc m query"
    by (simp add: find_one_def find_one_spec_def split: sum.splits list.splits)
  from find_pipeline_limit_one [OF wf, of query] obtain p where
    p: "find_pipeline m query 1 0 = Inr p" and l: "Limit 1 \<in> set p"
    by blast
  let ?cursor = "\<lparr>cursor_model = m,
       motor_cursor = \<lparr>pending = aggregate (collection m) p, fetched = 0\<rparr>,
       results = None\<rparr>"
  have f: "find aggregate (ModelType m) query 1 0 = Inr ?cursor"
    using p by (simp add: find_def)
  have 1: "aggregate (collection m) p = [] \<longrightarrow>
              find_one aggregate parse_doc (ModelType m) query = Inr None"
    by (simp add: find_one_def f cursor_await_def to_list_def)
  have 2: "\<forall>first others.
               fst (cursor_await parse_doc ?cursor) = Inr (first # others) \<longrightarrow>
               find_one aggregate parse_doc (ModelType m) query = Inr (Some first)"
    by (simp add: find_one_def f)
  have 3: "\<forall>raw_doc others inst.
               aggregate (collection m) p = raw_doc # others \<longrightarrow>
               find_one aggregate parse_doc (ModelType m) query = Inr (Some inst) \<longrightarrow>
               parse_document parse_doc ?cursor raw_doc = Inr inst"
  proof (intro allI impI)
    fix raw_doc others inst
    assume a: "aggregate (collection m) p = raw_doc # others"
      and b: "find_one aggregate parse_doc (ModelType m) query = Inr (Some inst)"
    from b obtain found where
      c: "fst (cursor_await parse_doc ?cursor) = Inr found" and d: "found \<noteq> []" "found ! 0 = inst"
      by (auto simp: find_one_def f split: sum.splits if_splits)
    have "parse_all parse_doc ?cursor (raw_doc # others) [] = Inr found"
      using c a by (simp add: cursor_await_None to_list_def split: sum.splits)
    from parse_all_D [OF this] d show "parse_document parse_doc ?cursor raw_doc = Inr inst"
      by (auto simp: list_all2_Cons1)
  qed
  have 4: "\<forall>e. fst (cursor_await parse_doc ?cursor) = Inl e \<longrightarrow>
               find_one aggregate parse_doc (ModelType m) query = Inl e"
    by (simp add: find_one_def f)
  have 5: "pending (motor_cursor ?cursor) = aggregate (collection m) p" "results ?cursor = None"
    by simp_all
  from eq p l f 1 2 3 4 5 show ?thesis by blast
qed

theorem find_one_refines_find_witness:
  "wf_model author_model \<and>
   find_one example_aggregate example_parse_doc (ModelType author_model) ()
     = Inr (Some (example_author 1 ''A'')) \<and>
   find_one_spec example_aggregate example_parse_doc author_model ()
     = Inr (Some (example_author 1 ''A''))"
proof -
  have wf: "wf_model author_model" by code_simp
  have v: "find_one example_aggregate example_parse_doc (ModelType author_model) ()
     = Inr (Some (example_author 1 ''A''))"
    by code_simp
  from find_one_refines_find [OF wf, of example_aggregate example_parse_doc "()"] v wf
  show ?thesis by simp
qed

subsection \<open>Saving\<close>

lemma gather_in_transaction:
  "(\<And>x s. x \<in> set xs \<Longrightarrow> in_transaction (snd (task x s)) = in_transaction s) \<Longrightarrow>
   in_transaction (snd (gather task xs db)) = in_transaction db"
proof (induction xs arbitrary: db)
  case Nil
  then show ?case by simp
next
  case (Cons x xs)
  have x: "in_transaction (snd (task x db)) = in_transaction db" using Cons.prems by simp
  have "in_transaction (snd (gather task xs s)) = in_transaction s" for s
    using Cons.IH Cons.prems by simp
  with x show ?case by (auto split: prod.splits sum.splits)
qed

lemma own_update_session:
  "own_update doc inst = Inr (Some upd) \<Longrightarrow> with_session upd = None"
  by (auto simp: own_update_def Let_def split: if_splits sum.splits)

lemma update_one_no_session:
  "with_session upd = None \<Longrightarrow>
   in_transaction (snd (update_one reject db upd)) = in_transaction db"
  by (simp add: update_one_def split: option.splits)

lemma private_save_in_transaction:
  "in_transaction (snd (private_save reject doc inst session db)) = in_transaction db"
proof (induction reject doc inst session db rule: private_save.induct)
  case (1 reject doc inst session db)
  show ?case
  proof (cases "save_tasks inst (references (cls inst))")
    case (Inl e)
    then show ?thesis by (subst private_save.simps) simp
  next
    case (Inr tasks)
    let ?task = "\<lambda>task db. case task of
                       Plain v \<Rightarrow> (Inl (AttributeError ''__references__''), db)
                     | Sub sub_instance \<Rightarrow> private_save reject doc sub_instance session db"
    have t: "in_transaction (snd (?task x s)) = in_transaction s" if "x \<in> set tasks" for x s
      using "1.IH" [OF Inr that] by (cases x) simp_all
    have g: "in_transaction (snd (gather ?task tasks db)) = in_transaction db"
      using t by (rule gather_in_transaction)
    obtain r db' where r: "gather ?task tasks db = (r, db')" by (cases "gather ?task tasks db")
    with g have db': "in_transaction db' = in_transaction db" by simp
    show ?thesis
      using Inr r db'
      by (subst private_save.simps)
         (auto simp: own_update_session update_one_no_session split: sum.splits option.splits)
  qed
qed




lemma own_update_unmodified:
  "fields_modified inst = {} \<Longrightarrow> own_update doc inst = Inr None"
  by (simp add: own_update_def)

lemma own_update_modified:
  "fields_modified inst \<noteq> {} \<Longrightarrow> getattr inst ''id'' = Inr v \<Longrightarrow>
   own_update doc inst =
     Inr (Some \<lparr>update_collection = collection (cls inst), filter_id = v,
                set_doc = doc inst (fields_modified inst - {primary_key (cls inst)}),
                upsert = True, with_session = None\<rparr>)"
  by (simp add: own_update_def)

lemma save_resets_root:
  "fst (save reject doc inst db) = Inr inst' \<Longrightarrow>
   inst' = set_fields_modified inst {} \<and> fields_modified inst' = {}
   \<and> attr_dict inst' = attr_dict inst"
  by (auto simp: save_def set_fields_modified_def
           split: prod.splits sum.splits py_error.splits option.splits if_splits)

lemma parse_document_resets:
  "parse_document parse_doc self raw_doc = Inr inst \<Longrightarrow> fields_modified inst = {}"
  by (auto simp: parse_document_def set_fields_modified_def split: sum.splits)

text \<open>
  Claim C1 does not hold of the code. \<^verbatim>\<open>_save\<close> receives the session of the transaction
  but calls \<^verbatim>\<open>update_one\<close> without it, so no update of a save ever joins the
  transaction: the transaction buffer is the same before and after \<^verbatim>\<open>_save\<close>, and every
  update is persisted when it is made. When the book's own update fails after the update
  of its author has succeeded, \<^verbatim>\<open>save\<close> raises and the aborted transaction takes nothing
  back: the author's update stays persisted.
\<close>

theorem save_not_atomic:
  "in_transaction (snd (private_save reject doc inst session db)) = in_transaction db
   \<and> save (reject_collection ''book'' (StoreError ''connection lost'')) example_doc
        modified_book empty_db
     = (Inl (StoreError ''connection lost''),
        \<lparr>persisted = [author_update], in_transaction = []\<rparr>)"
proof -
  have "save (reject_collection ''book'' (StoreError ''connection lost'')) example_doc
        modified_book empty_db
     = (Inl (StoreError ''connection lost''),
        \<lparr>persisted = [author_update], in_transaction = []\<rparr>)"
    by code_simp
  then show ?thesis by (simp add: private_save_in_transaction)
qed

text \<open>
  Claim C2 does not hold of the code for a sub-instance. A successful \<^verbatim>\<open>save\<close> resets the
  modified fields of the instance it was called with only: the book comes back with an
  empty set, while its author, whose update has been persisted by the same call, still
  has the field \<^verbatim>\<open>name\<close> in its set. (An instance parsed by a cursor does have an empty
  set.)
\<close>

theorem save_leaves_sub_instance_modified:
  "save accept_all example_doc modified_book empty_db
     = (Inr (set_fields_modified modified_book {}),
        \<lparr>persisted = [author_update, book_update], in_transaction = []\<rparr>)
   \<and> fields_modified (set_fields_modified modified_book {}) = {}
   \<and> sub_instance_of (set_fields_modified modified_book {}) ''author'' = Some modified_author
   \<and> fields_modified modified_author = {''name''}
   \<and> own_update example_doc modified_author = Inr (Some author_update)
   \<and> parse_document example_parse_doc example_cursor [(''_id'', BInt 1), (''name'', BStr ''A'')]
       = Inr (example_author 1 ''A'')
   \<and> fields_modified (example_author 1 ''A'') = {}"
  by code_simp

text \<open>
  Claim C5 does not hold of the code for a model whose primary key is not the field
  \<^verbatim>\<open>id\<close>. The filter of the update is \<^verbatim>\<open>{"_id": instance.id}\<close>, not the value of the
  primary key field. An instance with the primary key \<^verbatim>\<open>isbn\<close>, a modified title and no
  attribute \<^verbatim>\<open>id\<close> makes \<^verbatim>\<open>save\<close> raise \<^verbatim>\<open>AttributeError\<close> without any update; when
  it has an attribute \<^verbatim>\<open>id\<close>, the one update is keyed by that value, not by the value of
  \<^verbatim>\<open>isbn\<close>.
\<close>

theorem save_keyed_by_id_attribute:
  "primary_key (cls isbn_book) = ''isbn''
   \<and> getattr isbn_book (primary_key (cls isbn_book)) = Inr (Plain (BStr ''978''))
   \<and> fields_modified isbn_book = {''title''}
   \<and> save accept_all example_doc isbn_book empty_db = (Inl (AttributeError ''id''), empty_db)
   \<and> getattr isbn_book_with_id (primary_key (cls isbn_book_with_id)) = Inr (Plain (BStr ''978''))
   \<and> save accept_all example_doc isbn_book_with_id empty_db
       = (Inr (set_fields_modified isbn_book_with_id {}),
          \<lparr>persisted = [\<lparr>update_collection = ''isbn_book'', filter_id = Plain (BInt 5),
                          set_doc = [(''title'', BStr ''T'')], upsert = True,
                          with_session = None\<rparr>],
           in_transaction = []\<rparr>)"
  by code_simp





subsection \<open>The order of the updates of a save\<close>


lemma append_in_shuffles: "t @ y \<in> shuffles t y"
  by (induction t) (auto intro: Cons_in_shuffles_leftI)

lemma insert_in_shuffles: "x @ t @ y \<in> shuffles t (x @ y)"
  by (induction x) (auto intro: Cons_in_shuffles_rightI append_in_shuffles)


lemma interleavings_permuted:
  "list_all2 (\<in>) ts Ts \<Longrightarrow> mset ts' = mset ts \<Longrightarrow> concat ts' \<in> interleavings Ts"
proof (induction ts Ts arbitrary: ts' rule: list_all2_induct)
  case Nil
  then show ?case by simp
next
  case (Cons t ts T Ts)
  from Cons.prems have "t \<in> set ts'" by (metis list.set_intros(1) set_mset_mset)
  then obtain a b where ts': "ts' = a @ t # b" by (auto simp: in_set_conv_decomp)
  with Cons.prems have "mset (a @ b) = mset ts" by simp
  from Cons.IH [OF this] have "concat a @ concat b \<in> interleavings Ts" by simp
  moreover have "concat ts' \<in> shuffles t (concat a @ concat b)"
    using insert_in_shuffles [of "concat a" t "concat b"] by (simp add: ts')
  ultimately show ?case using Cons.hyps(1) by auto
qed


lemma save_traces_I:
  assumes "save_tasks inst (references (cls inst)) = Inr tasks"
    and "own_update doc inst = Inr own"
    and "children \<in> interleavings
          (map (\<lambda>task. case task of Plain v \<Rightarrow> {} | Sub sub_instance \<Rightarrow> save_traces doc sub_instance)
               tasks)"
  shows "children @ own_updates doc inst \<in> save_traces doc inst"
  using assms
  by (subst save_traces.simps)
     (auto simp: own_updates_def split: sum.splits option.splits)

lemma gather_persisted:
  assumes "\<And>x s r s'. x \<in> set xs \<Longrightarrow> task x s = (Inr r, s') \<Longrightarrow>
             \<exists>t \<in> T x. persisted s' = persisted s @ t"
    and "gather task xs db = (Inr u, db')"
  shows "\<exists>ts. list_all2 (\<in>) ts (map T xs) \<and> persisted db' = persisted db @ concat ts"
  using assms
proof (induction xs arbitrary: db)
  case Nil
  then show ?case by simp
next
  case (Cons x xs)
  from Cons.prems(2) obtain r s where
    x: "task x db = (Inr r, s)" and rest: "gather task xs s = (Inr u, db')"
    by (auto split: prod.splits sum.splits)
  from Cons.prems(1) [OF _ x] obtain t where t: "t \<in> T x" "persisted s = persisted db @ t"
    by auto
  from Cons.IH [OF _ rest] Cons.prems(1) obtain ts where
    ts: "list_all2 (\<in>) ts (map T xs)" "persisted db' = persisted s @ concat ts"
    by (metis list.set_intros(2))
  have "list_all2 (\<in>) (t # ts) (map T (x # xs))" using t(1) ts(1) by simp
  moreover have "persisted db' = persisted db @ concat (t # ts)" using t(2) ts(2) by simp
  ultimately show ?case by blast
qed

lemma private_save_trace_aux:
  "reject = accept_all \<Longrightarrow> private_save reject doc inst session db = (Inr u, db') \<Longrightarrow>
   \<exists>t \<in> save_traces doc inst. persisted db' = persisted db @ t"
proof (induction reject doc inst session db arbitrary: u db' rule: private_save.induct)
  case (1 reject doc inst session db)
  note run = "1.prems"(2)
  let ?task = "\<lambda>task db. case task of
                       Plain v \<Rightarrow> (Inl (AttributeError ''__references__''), db)
                     | Sub sub_instance \<Rightarrow> private_save reject doc sub_instance session db"
  let ?T = "\<lambda>task. case task of Plain v \<Rightarrow> {} | Sub sub_instance \<Rightarrow> save_traces doc sub_instance"
  from run obtain tasks where tasks: "save_tasks inst (references (cls inst)) = Inr tasks"
    by (subst (asm) private_save.simps) (auto split: sum.splits)
  from run tasks obtain u1 db1 where g: "gather ?task tasks db = (Inr u1, db1)"
    by (subst (asm) private_save.simps) (auto split: sum.splits prod.splits)
  from run tasks g obtain own where own: "own_update doc inst = Inr own"
    by (subst (asm) private_save.simps) (auto split: sum.splits)
  have last: "persisted db' = persisted db1 @ own_updates doc inst"
    using run tasks g own "1.prems"(1)
    by (subst (asm) private_save.simps)
       (auto simp: own_updates_def update_one_def accept_all_def own_update_session
             split: option.splits)
  have step: "\<exists>t \<in> ?T x. persisted s' = persisted s @ t"
    if "x \<in> set tasks" "?task x s = (Inr r, s')" for x s r s'
  proof (cases x)
    case (Plain v)
    with that show ?thesis by simp
  next
    case (Sub sub)
    with that have "private_save reject doc sub session s = (Inr r, s')" by simp
    from "1.IH" [OF tasks that(1) Sub "1.prems"(1) this] Sub show ?thesis by simp
  qed
  have "\<exists>ts. list_all2 (\<in>) ts (map ?T tasks) \<and> persisted db1 = persisted db @ concat ts"
    by (rule gather_persisted [where T = ?T and task = ?task, OF _ g]) (rule step; assumption)
  then obtain ts where
    ts: "list_all2 (\<in>) ts (map ?T tasks)" "persisted db1 = persisted db @ concat ts"
    by blast
  have "concat ts \<in> interleavings (map ?T tasks)"
    using interleavings_permuted [OF ts(1) refl] .
  from save_traces_I [OF tasks own this] last ts(2) show ?case by auto
qed

lemma private_save_is_a_trace:
  "private_save accept_all doc inst session db = (Inr u, db') \<Longrightarrow>
   \<exists>t \<in> save_traces doc inst. persisted db' = persisted db @ t"
  by (rule private_save_trace_aux [OF refl])




end
